theory Spec2Isabelle
  imports Main "HOL-Library.Word"
begin

unbundle bit_operations_syntax

section \<open>Data model of the renter's download engine\<close>

text \<open>
  The Go package \<open>renter\<close> retrieves one verified copy of a file from the hosts that
  store its pieces. The model is sequential: one call of \<open>Renter.Download\<close> runs
  from start to end, and everything outside the program (which paths can be created,
  what each host answers, how much of each buffer the disk accepts, the random byte
  of the backoff) is an explicit argument. The mutex \<open>r.mu\<close> orders concurrent
  callers and is not represented.
\<close>

type_synonym byte = "8 word"
type_synonym uint64 = "64 word"
type_synonym Hash = "byte list"

text \<open>
  \<open>filePiece\<close>, its contract and \<open>file\<close> are declared elsewhere in the package; the
  records hold the fields that the download code reads.
\<close>

record FileContract =
  FileSize :: uint64
  FileMerkleRoot :: Hash

record filePiece =
  Active :: bool
  HostIP :: string
  ContractID :: Hash
  Contract :: FileContract
  EncryptionKey :: "byte list"

record file' =
  Name :: string
  Pieces :: "filePiece list"

text \<open>An open \<open>os.File\<close>: the path it was created at, the write cursor, and whether
  it has been closed.\<close>

record File =
  path :: string
  offset :: nat
  closed :: bool

record Download =
  received :: uint64
  startTime :: nat
  complete :: bool
  filesize :: uint64
  destination :: string
  nickname :: string
  pieces :: "filePiece list"
  handle :: File

datatype error =
    DialError
  | SendError
  | ReadError
  | WriteError
  | ShortWrite
  | FileClosed
  | InvalidFile
  | CreateError
  | NoActivePieces
  | NoSuchFile
  | CouldNotDownload
  | IndexOutOfRange

text \<open>
  The effects of a run, in the order the program performs them. \<open>Begin\<close> and
  \<open>Reset\<close> carry the counter and the write cursor as they are at that moment,
  \<open>Progress\<close> the counter as \<open>Write\<close> has just published it, \<open>Finish\<close> what
  \<open>downloadPiece\<close> returned, \<open>Sleep\<close> the duration in nanoseconds.
\<close>

datatype event =
    Begin nat nat uint64 nat
  | Progress uint64
  | Finish nat nat "error option"
  | Reset uint64 nat
  | Sleep int
  | Close
  | Remove string

record world =
  disk :: "string \<rightharpoonup> byte list"
  log :: "event list"

section \<open>The destination file\<close>

text \<open>
  \<open>os.File.Write\<close> at the cursor. \<open>cap\<close> is what the operating system accepts of
  this buffer: \<open>None\<close> is all of it, \<open>Some k\<close> at most \<open>k\<close> bytes. As in Go, fewer
  bytes than the buffer holds come with an error, and a closed file takes nothing.
  (\<open>file\<close> is a keyword of Isabelle: the field \<open>d.file\<close> is \<open>handle\<close>, the type
  \<open>file\<close> is \<open>file'\<close>.)
\<close>

definition overwrite :: "byte list \<Rightarrow> nat \<Rightarrow> byte list \<Rightarrow> byte list" where
  "overwrite old off new =
     take off (old @ replicate (off - length old) 0) @ new @ drop (off + length new) old"

definition File_Write ::
  "nat option \<Rightarrow> byte list \<Rightarrow> File \<Rightarrow> (string \<rightharpoonup> byte list)
     \<Rightarrow> (nat \<times> error option) \<times> File \<times> (string \<rightharpoonup> byte list)" where
  "File_Write cap b f dk =
     (if closed f then ((0, Some FileClosed), f, dk)
      else
        let n = (case cap of None \<Rightarrow> length b | Some k \<Rightarrow> min k (length b));
            old = (case dk (path f) of None \<Rightarrow> [] | Some c \<Rightarrow> c)
        in ((n, if n < length b then Some WriteError else None),
            f\<lparr>offset := offset f + n\<rparr>,
            if n = 0 then dk else dk(path f \<mapsto> overwrite old (offset f) (take n b))))"

text \<open>
  \<open>Seek(0, 0)\<close> and \<open>Close\<close> on the open destination file, and \<open>os.Remove\<close> below, are
  taken to succeed; the program ignores their errors.
\<close>

definition File_Seek0 :: "File \<Rightarrow> File" where
  "File_Seek0 f = (if closed f then f else f\<lparr>offset := 0\<rparr>)"

definition File_Close :: "File \<Rightarrow> File" where
  "File_Close f = f\<lparr>closed := True\<rparr>"

section \<open>Download.Write\<close>

text \<open>
  \<^verbatim>\<open>n, err := d.file.Write(b); atomic.AddUint64(&d.received, uint64(n)); return n, err\<close>
  The addition is on \<open>uint64\<close> and wraps.
\<close>

definition Download_Write ::
  "nat option \<Rightarrow> byte list \<Rightarrow> Download \<Rightarrow> world
     \<Rightarrow> (nat \<times> error option) \<times> Download \<times> world" where
  "Download_Write cap b d w =
     (case File_Write cap b (handle d) (disk w) of
        ((n, err), f', dk') \<Rightarrow>
          let rcv = received d + of_nat n
          in ((n, err),
              d\<lparr>handle := f', received := rcv\<rparr>,
              w\<lparr>disk := dk', log := log w @ [Progress rcv]\<rparr>))"

section \<open>Fetching one piece\<close>

text \<open>
  The package \<open>crypto\<close> is not part of the sources at hand. Its two operations are
  parameters: the key stream of the stream cipher behind \<open>EncryptionKey.NewWriter\<close>
  (key, position in the stream) and the Merkle root of a byte sequence.
\<close>

record crypto =
  keystream :: "byte list \<Rightarrow> nat \<Rightarrow> byte"
  merkleRoot :: "byte list \<Rightarrow> Hash"

text \<open>
  What the outside does during one call of \<open>downloadPiece\<close>: whether the dial and
  the two sends succeed, the data that successive reads of the connection return,
  whether the connection then ends with a network error (\<open>True\<close>) or end of stream,
  and the disk's answer to each successive write (all bytes accepted once the list is
  used up).
\<close>

record attempt =
  dial_ok :: bool
  tag_ok :: bool
  id_ok :: bool
  reads :: "byte list list"
  read_err :: bool
  writes :: "nat option list"

text \<open>
  Modelled from the spec: \<open>EncryptionKey.NewWriter(d)\<close>, a \<open>cipher.StreamWriter\<close>
  over the session: each buffer is XORed with the key stream at the current
  position and handed to \<open>Download.Write\<close>; a short write without an error becomes
  \<open>ErrShortWrite\<close>.
\<close>

definition xor_stream :: "crypto \<Rightarrow> byte list \<Rightarrow> nat \<Rightarrow> byte list \<Rightarrow> byte list" where
  "xor_stream cr k pos src = map (\<lambda>(i, b). b XOR keystream cr k (pos + i)) (enumerate 0 src)"

definition StreamWriter_Write ::
  "crypto \<Rightarrow> byte list \<Rightarrow> nat \<Rightarrow> nat option \<Rightarrow> byte list \<Rightarrow> Download \<Rightarrow> world
     \<Rightarrow> (nat \<times> error option) \<times> Download \<times> world" where
  "StreamWriter_Write cr k pos cap src d w =
     (case Download_Write cap (xor_stream cr k pos src) d w of
        ((n, err), d', w') \<Rightarrow>
          ((n, if n \<noteq> length src \<and> err = None then Some ShortWrite else err), d', w'))"

text \<open>
  The reads that \<open>crypto.ReaderMerkleRoot\<close> makes of
  \<open>io.TeeReader(io.LimitReader(conn, N), key.NewWriter(d))\<close>, until end of stream.
  \<open>lim\<close> is what is left of the limit \<open>N\<close>, \<open>pos\<close> the position in the key stream,
  \<open>acc\<close> the bytes the reader has delivered so far. The limited reader ends the
  stream once \<open>lim\<close> is used up and asks the connection for at most \<open>lim\<close> bytes; the
  tee hands every non-empty read to the writer and turns the writer's error into a
  read error; what the tee delivers to its caller are the bytes as read from the
  connection.
\<close>

fun tee_read_all ::
  "crypto \<Rightarrow> byte list \<Rightarrow> nat \<Rightarrow> nat \<Rightarrow> byte list list \<Rightarrow> bool \<Rightarrow> nat option list
     \<Rightarrow> byte list \<Rightarrow> Download \<Rightarrow> world \<Rightarrow> (error + byte list) \<times> Download \<times> world" where
  "tee_read_all cr k lim pos [] rerr caps acc d w =
     (if lim = 0 then (Inr acc, d, w)
      else if rerr then (Inl ReadError, d, w)
      else (Inr acc, d, w))"
| "tee_read_all cr k lim pos (c # cs) rerr caps acc d w =
     (if lim = 0 then (Inr acc, d, w)
      else
        let p = take lim c in
        if p = [] then tee_read_all cr k lim pos cs rerr caps acc d w
        else
          (case StreamWriter_Write cr k pos (case caps of [] \<Rightarrow> None | x # _ \<Rightarrow> x) p d w of
             ((n, Some e), d', w') \<Rightarrow> (Inl e, d', w')
           | ((n, None), d', w') \<Rightarrow>
               tee_read_all cr k (lim - length p) (pos + length p) cs rerr (tl caps)
                 (acc @ p) d' w'))"

text \<open>
  Modelled from the spec: \<open>crypto.ReaderMerkleRoot\<close> reads its reader to the end and
  returns the digest of what it read, or the error of the read that failed.
\<close>

definition ReaderMerkleRoot ::
  "crypto \<Rightarrow> byte list \<Rightarrow> nat \<Rightarrow> attempt \<Rightarrow> Download \<Rightarrow> world
     \<Rightarrow> (error + Hash) \<times> Download \<times> world" where
  "ReaderMerkleRoot cr k lim a d w =
     (case tee_read_all cr k lim 0 (reads a) (read_err a) (writes a) [] d w of
        (Inl e, d', w') \<Rightarrow> (Inl e, d', w')
      | (Inr bs, d', w') \<Rightarrow> (Inr (merkleRoot cr bs), d', w'))"

text \<open>
  \<open>int64(piece.Contract.FileSize)\<close> reads the unsigned size as a signed number; a
  limit that is not positive lets the limited reader deliver nothing.
\<close>

definition read_limit :: "filePiece \<Rightarrow> nat" where
  "read_limit piece = nat (sint (FileSize (Contract piece)))"

definition downloadPiece ::
  "crypto \<Rightarrow> attempt \<Rightarrow> filePiece \<Rightarrow> Download \<Rightarrow> world
     \<Rightarrow> error option \<times> Download \<times> world" where
  "downloadPiece cr a piece d w =
     (if \<not> dial_ok a then (Some DialError, d, w)
      else if \<not> tag_ok a then (Some SendError, d, w)
      else if \<not> id_ok a then (Some SendError, d, w)
      else
        (case ReaderMerkleRoot cr (EncryptionKey piece) (read_limit piece) a d w of
           (Inl e, d', w') \<Rightarrow> (Some e, d', w')
         | (Inr root, d', w') \<Rightarrow>
             if root \<noteq> FileMerkleRoot (Contract piece) then (Some InvalidFile, d', w')
             else (None, d', w')))"

section \<open>Constructing a session\<close>

text \<open>
  The rest of the outside: which paths \<open>os.Create\<close> can create, the clock, the hosts'
  behaviour at pass \<open>i\<close> for the \<open>j\<close>-th active piece, and the byte that
  \<open>rand.Read\<close> draws after pass \<open>i\<close>.
\<close>

record env =
  creatable :: "string \<Rightarrow> bool"
  now :: nat
  host :: "nat \<Rightarrow> nat \<Rightarrow> attempt"
  rand :: "nat \<Rightarrow> byte"

definition os_Create :: "env \<Rightarrow> string \<Rightarrow> world \<Rightarrow> (error + File) \<times> world" where
  "os_Create e p w =
     (if creatable e p
      then (Inr \<lparr>path = p, offset = 0, closed = False\<rparr>, w\<lparr>disk := (disk w)(p \<mapsto> [])\<rparr>)
      else (Inl CreateError, w))"

definition os_Remove :: "string \<Rightarrow> world \<Rightarrow> world" where
  "os_Remove p w = w\<lparr>disk := (disk w)(p := None), log := log w @ [Remove p]\<rparr>"

text \<open>
  \<open>file.Pieces[0]\<close> panics on an empty slice; the panic is the result
  \<open>IndexOutOfRange\<close>.
\<close>

definition newDownload :: "env \<Rightarrow> file' \<Rightarrow> string \<Rightarrow> world \<Rightarrow> (error + Download) \<times> world" where
  "newDownload e f dest w =
     (case os_Create e dest w of
        (Inl err, w') \<Rightarrow> (Inl err, w')
      | (Inr h, w') \<Rightarrow>
          let activePieces = filter Active (Pieces f) in
          if length activePieces = 0 then (Inl NoActivePieces, w')
          else
            (case Pieces f of
               [] \<Rightarrow> (Inl IndexOutOfRange, w')
             | p0 # _ \<Rightarrow>
                 (Inr \<lparr>received = 0, startTime = now e, complete = False,
                       filesize = FileSize (Contract p0), destination = dest,
                       nickname = Name f, pieces = activePieces, handle = h\<rparr>, w')))"

section \<open>The retry loop\<close>

definition downloadAttempts :: nat where
  "downloadAttempts = 5"

text \<open>
  \<open>time.Second * time.Duration(i*i) * time.Duration(randSource[0])\<close>, a product of
  \<open>int64\<close> values in nanoseconds.
\<close>

definition backoff :: "nat \<Rightarrow> byte \<Rightarrow> int" where
  "backoff i rb = sint ((1000000000 :: 64 word) * of_nat (i * i) * ucast rb)"

definition emit :: "event \<Rightarrow> world \<Rightarrow> world" where
  "emit ev w = w\<lparr>log := log w @ [ev]\<rparr>"

text \<open>
  The inner loop \<open>for _, piece := range d.pieces\<close> of pass \<open>i\<close>, from the \<open>j\<close>-th
  piece on. \<open>True\<close> is the \<open>return nil\<close> inside the loop.
\<close>

fun pieces_loop ::
  "crypto \<Rightarrow> env \<Rightarrow> nat \<Rightarrow> nat \<Rightarrow> filePiece list \<Rightarrow> Download \<Rightarrow> world
     \<Rightarrow> bool \<times> Download \<times> world" where
  "pieces_loop cr e i j [] d w = (False, d, w)"
| "pieces_loop cr e i j (piece # ps) d w =
     (case downloadPiece cr (host e i j) piece d
             (emit (Begin i j (received d) (offset (handle d))) w) of
        (downloadErr, d1, w1) \<Rightarrow>
          (case downloadErr of
             None \<Rightarrow>
               (True,
                d1\<lparr>complete := True, handle := File_Close (handle d1)\<rparr>,
                emit Close (emit (Finish i j downloadErr) w1))
           | Some x \<Rightarrow>
               let d2 = d1\<lparr>handle := File_Seek0 (handle d1)\<rparr>;
                   d3 = d2\<lparr>received := 0\<rparr>
               in pieces_loop cr e i (Suc j) ps d3
                    (emit (Reset (received d3) (offset (handle d3)))
                       (emit (Finish i j downloadErr) w1))))"

text \<open>The outer loop \<open>for i := 0; i < downloadAttempts; i++\<close>, from pass \<open>i\<close> on.\<close>

function passes_loop ::
  "crypto \<Rightarrow> env \<Rightarrow> nat \<Rightarrow> Download \<Rightarrow> world \<Rightarrow> bool \<times> Download \<times> world" where
  "passes_loop cr e i d w =
     (if i < downloadAttempts then
        (case pieces_loop cr e i 0 (pieces d) d w of
           (True, d', w') \<Rightarrow> (True, d', w')
         | (False, d', w') \<Rightarrow>
             passes_loop cr e (Suc i) d' (emit (Sleep (backoff i (rand e i))) w'))
      else (False, d, w))"
  by pat_completeness auto
termination
  by (relation "measure (\<lambda>(cr, e, i, d, w). downloadAttempts - i)") auto

declare passes_loop.simps [simp del]

section \<open>Renter.Download and Renter.DownloadQueue\<close>

text \<open>
  The queue holds pointers to sessions. \<open>heap\<close> is the store of the sessions
  allocated so far; a pointer is an index into it.
\<close>

record Renter =
  files :: "string \<rightharpoonup> file'"
  heap :: "Download list"
  downloadQueue :: "nat list"

definition Renter_Download ::
  "crypto \<Rightarrow> env \<Rightarrow> string \<Rightarrow> string \<Rightarrow> Renter \<Rightarrow> world
     \<Rightarrow> error option \<times> Renter \<times> world" where
  "Renter_Download cr e nick dest r w =
     (case files r nick of
        None \<Rightarrow> (Some NoSuchFile, r, w)
      | Some f \<Rightarrow>
          (case newDownload e f dest w of
             (Inl err, w1) \<Rightarrow> (Some err, r, w1)
           | (Inr d, w1) \<Rightarrow>
               let ptr = length (heap r);
                   r1 = r\<lparr>heap := heap r @ [d], downloadQueue := downloadQueue r @ [ptr]\<rparr>
               in
                 (case passes_loop cr e 0 d w1 of
                    (True, d2, w2) \<Rightarrow> (None, r1\<lparr>heap := (heap r1)[ptr := d2]\<rparr>, w2)
                  | (False, d2, w2) \<Rightarrow>
                      (Some CouldNotDownload,
                       r1\<lparr>heap := (heap r1)[ptr := d2\<lparr>handle := File_Close (handle d2)\<rparr>]\<rparr>,
                       os_Remove dest (emit Close w2)))))"

definition DownloadQueue :: "Renter \<Rightarrow> nat list" where
  "DownloadQueue r =
     map (\<lambda>i. downloadQueue r ! (length (downloadQueue r) - i - 1))
       [0..<length (downloadQueue r)]"

section \<open>Reading sessions and logs\<close>

text \<open>Two states of a session that differ at most in the counter and the write cursor.\<close>

definition same_session :: "Download \<Rightarrow> Download \<Rightarrow> bool" where
  "same_session d d' =
     (startTime d' = startTime d \<and> complete d' = complete d \<and> filesize d' = filesize d
      \<and> destination d' = destination d \<and> nickname d' = nickname d \<and> pieces d' = pieces d
      \<and> path (handle d') = path (handle d) \<and> closed (handle d') = closed (handle d))"

text \<open>Two states of a session that describe the same file and destination.\<close>

definition same_identity :: "Download \<Rightarrow> Download \<Rightarrow> bool" where
  "same_identity d d' =
     (startTime d' = startTime d \<and> filesize d' = filesize d
      \<and> destination d' = destination d \<and> nickname d' = nickname d \<and> pieces d' = pieces d
      \<and> path (handle d') = path (handle d))"

text \<open>An attempt that returned nil.\<close>

fun succeeded :: "event \<Rightarrow> bool" where
  "succeeded (Finish i j None) = True"
| "succeeded ev = False"

text \<open>The attempts of a log in order: pass, index of the piece, and whether it returned nil.\<close>

fun finished :: "event list \<Rightarrow> (nat \<times> nat \<times> bool) list" where
  "finished [] = []"
| "finished (Finish i j r # evs) = (i, j, r = None) # finished evs"
| "finished (ev # evs) = finished evs"


text \<open>
  From the value \<open>v\<close> on, the counter never falls when a write publishes it, and a
  reset sets it to zero.
\<close>

fun climbs :: "uint64 \<Rightarrow> event list \<Rightarrow> bool" where
  "climbs v [] = True"
| "climbs v (Progress v' # evs) = (v \<le> v' \<and> climbs v' evs)"
| "climbs v (Reset v' off # evs) = (v' = 0 \<and> climbs 0 evs)"
| "climbs v (ev # evs) = climbs v evs"

text \<open>
  Every attempt starts with counter and cursor at zero, and the event right after a
  failed attempt is the reset, with counter and cursor at zero.
\<close>

fun reset_after_failure :: "event list \<Rightarrow> bool" where
  "reset_after_failure [] = True"
| "reset_after_failure (Begin i j v off # evs) = (v = 0 \<and> off = 0 \<and> reset_after_failure evs)"
| "reset_after_failure (Finish i j (Some x) # evs) =
     (case evs of
        Reset v off # evs' \<Rightarrow> v = 0 \<and> off = 0 \<and> reset_after_failure evs'
      | _ \<Rightarrow> False)"
| "reset_after_failure (ev # evs) = reset_after_failure evs"

text \<open>
  The shape of the log of one pass over the pieces \<open>ps\<close>, starting with the \<open>j\<close>-th,
  and of the passes from pass \<open>i\<close> on. The flag tells whether an attempt returned nil.
\<close>

inductive pass_trace :: "nat \<Rightarrow> nat \<Rightarrow> filePiece list \<Rightarrow> bool \<Rightarrow> event list \<Rightarrow> bool" where
  pass_end: "pass_trace i j [] False []"
| pass_fail:
    "sorted (0 # vs) \<Longrightarrow> \<forall>v\<in>set vs. v \<le> FileSize (Contract piece) \<Longrightarrow>
     pass_trace i (Suc j) ps ok evs \<Longrightarrow>
     pass_trace i j (piece # ps) ok
       (Begin i j 0 0 # map Progress vs @ Finish i j (Some x) # Reset 0 0 # evs)"
| pass_success:
    "sorted (0 # vs) \<Longrightarrow> \<forall>v\<in>set vs. v \<le> FileSize (Contract piece) \<Longrightarrow>
     pass_trace i j (piece # ps) True
       (Begin i j 0 0 # map Progress vs @ [Finish i j None, Close])"

inductive run_trace :: "env \<Rightarrow> filePiece list \<Rightarrow> nat \<Rightarrow> bool \<Rightarrow> event list \<Rightarrow> bool" where
  run_end: "\<not> i < downloadAttempts \<Longrightarrow> run_trace e ps i False []"
| run_success:
    "i < downloadAttempts \<Longrightarrow> pass_trace i 0 ps True evs \<Longrightarrow> run_trace e ps i True evs"
| run_retry:
    "i < downloadAttempts \<Longrightarrow> pass_trace i 0 ps False evs \<Longrightarrow>
     run_trace e ps (Suc i) ok evs' \<Longrightarrow>
     run_trace e ps i ok (evs @ Sleep (backoff i (rand e i)) # evs')"

text \<open>The queue holds each pointer once, and every pointer refers to an allocated session.\<close>

definition queue_wf :: "Renter \<Rightarrow> bool" where
  "queue_wf r =
     (distinct (downloadQueue r) \<and> (\<forall>p\<in>set (downloadQueue r). p < length (heap r)))"

section \<open>Concrete inputs\<close>

text \<open>Small inputs on which the theorems below are evaluated.\<close>

definition demo_handle :: File where
  "demo_handle = \<lparr>path = ''out'', offset = 1, closed = False\<rparr>"

definition demo_session :: Download where
  "demo_session =
     \<lparr>received = 1, startTime = 0, complete = False, filesize = 4, destination = ''out'',
      nickname = ''f'', pieces = [], handle = demo_handle\<rparr>"

definition demo_world :: world where
  "demo_world = \<lparr>disk = [''out'' \<mapsto> [9]], log = []\<rparr>"

text \<open>
  A toy cipher and digest: every key stream byte is 1, and the digest of a byte
  sequence is the sequence itself.
\<close>

definition demo_crypto :: crypto where
  "demo_crypto = \<lparr>keystream = (\<lambda>k i. 1), merkleRoot = (\<lambda>bs. bs)\<rparr>"

definition piece_A :: filePiece where
  "piece_A =
     \<lparr>Active = True, HostIP = ''hostA'', ContractID = [1],
      Contract = \<lparr>FileSize = 2, FileMerkleRoot = [5, 6]\<rparr>, EncryptionKey = [7]\<rparr>"

text \<open>
  A host that sends the stored bytes \<open>5, 6\<close> and one byte more, a host that sends a
  wrong first byte, and a host that refuses the connection.
\<close>

definition attempt_good :: attempt where
  "attempt_good =
     \<lparr>dial_ok = True, tag_ok = True, id_ok = True, reads = [[5], [6, 7]], read_err = False,
      writes = []\<rparr>"

definition attempt_bad :: attempt where
  "attempt_bad =
     \<lparr>dial_ok = True, tag_ok = True, id_ok = True, reads = [[9], [6, 7]], read_err = False,
      writes = []\<rparr>"

definition attempt_refused :: attempt where
  "attempt_refused =
     \<lparr>dial_ok = False, tag_ok = False, id_ok = False, reads = [], read_err = False,
      writes = []\<rparr>"

definition fresh_session :: Download where
  "fresh_session =
     \<lparr>received = 0, startTime = 0, complete = False, filesize = 2, destination = ''out'',
      nickname = ''f'', pieces = [piece_A],
      handle = \<lparr>path = ''out'', offset = 0, closed = False\<rparr>\<rparr>"

definition fresh_world :: world where
  "fresh_world = \<lparr>disk = [''out'' \<mapsto> []], log = []\<rparr>"

text \<open>
  A renter that knows four files: \<open>f\<close> with one active piece, \<open>idle\<close> whose only
  piece is inactive, \<open>none\<close> without pieces, and \<open>mixed\<close> whose first piece is
  inactive and declares a smaller size than the active one.
\<close>

definition piece_small :: filePiece where
  "piece_small =
     \<lparr>Active = False, HostIP = ''hostB'', ContractID = [2],
      Contract = \<lparr>FileSize = 1, FileMerkleRoot = [5]\<rparr>, EncryptionKey = [7]\<rparr>"

definition demo_renter :: Renter where
  "demo_renter =
     \<lparr>files = [''f'' \<mapsto> \<lparr>Name = ''f'', Pieces = [piece_A]\<rparr>,
               ''idle'' \<mapsto> \<lparr>Name = ''idle'', Pieces = [piece_small]\<rparr>,
               ''none'' \<mapsto> \<lparr>Name = ''none'', Pieces = []\<rparr>,
               ''mixed'' \<mapsto> \<lparr>Name = ''mixed'', Pieces = [piece_small, piece_A]\<rparr>],
      heap = [], downloadQueue = []\<rparr>"

definition empty_world :: world where
  "empty_world = \<lparr>disk = Map.empty, log = []\<rparr>"

text \<open>
  In \<open>demo_env\<close> the host answers wrongly in every pass but pass 1; in
  \<open>failing_env\<close> it refuses every connection. The random byte is always 3, and every
  path but the empty one can be created.
\<close>

definition demo_env :: env where
  "demo_env =
     \<lparr>creatable = (\<lambda>p. p \<noteq> []), now = 0,
      host = (\<lambda>i j. if i = 1 then attempt_good else attempt_bad), rand = (\<lambda>i. 3)\<rparr>"

definition failing_env :: env where
  "failing_env =
     \<lparr>creatable = (\<lambda>p. p \<noteq> []), now = 0, host = (\<lambda>i j. attempt_refused), rand = (\<lambda>i. 3)\<rparr>"

text \<open>The sessions and logs that these runs end with.\<close>

definition done_session :: Download where
  "done_session =
     \<lparr>received = 2, startTime = 0, complete = True, filesize = 2, destination = ''out'',
      nickname = ''f'', pieces = [piece_A],
      handle = \<lparr>path = ''out'', offset = 2, closed = True\<rparr>\<rparr>"

definition done_log :: "event list" where
  "done_log =
     [Begin 0 0 0 0, Progress 1, Progress 2, Finish 0 0 (Some InvalidFile), Reset 0 0, Sleep 0,
      Begin 1 0 0 0, Progress 1, Progress 2, Finish 1 0 None, Close]"

definition failed_session :: Download where
  "failed_session =
     \<lparr>received = 0, startTime = 0, complete = False, filesize = 2, destination = ''out'',
      nickname = ''f'', pieces = [piece_A],
      handle = \<lparr>path = ''out'', offset = 0, closed = True\<rparr>\<rparr>"

definition failed_log :: "event list" where
  "failed_log =
     [Begin 0 0 0 0, Finish 0 0 (Some DialError), Reset 0 0, Sleep 0,
      Begin 1 0 0 0, Finish 1 0 (Some DialError), Reset 0 0, Sleep 3000000000,
      Begin 2 0 0 0, Finish 2 0 (Some DialError), Reset 0 0, Sleep 12000000000,
      Begin 3 0 0 0, Finish 3 0 (Some DialError), Reset 0 0, Sleep 27000000000,
      Begin 4 0 0 0, Finish 4 0 (Some DialError), Reset 0 0, Sleep 48000000000,
      Close, Remove ''out'']"


text \<open>
  The renter and the world after \<open>f\<close> has been downloaded to \<open>out\<close>, and the session
  that a second, failing download of \<open>f\<close> to \<open>out2\<close> leaves behind.
\<close>

definition served_renter :: Renter where
  "served_renter = demo_renter\<lparr>heap := [done_session], downloadQueue := [0]\<rparr>"

definition served_world :: world where
  "served_world = \<lparr>disk = [''out'' \<mapsto> [4, 7]], log = done_log\<rparr>"

definition second_session :: Download where
  "second_session =
     \<lparr>received = 0, startTime = 0, complete = False, filesize = 2, destination = ''out2'',
      nickname = ''f'', pieces = [piece_A],
      handle = \<lparr>path = ''out2'', offset = 0, closed = True\<rparr>\<rparr>"

section \<open>What one attempt changes\<close>

lemma same_session_refl: "same_session d d"
  by (simp add: same_session_def)

lemma same_session_trans: "same_session a b \<Longrightarrow> same_session b c \<Longrightarrow> same_session a c"
  by (simp add: same_session_def)

lemma Download_Write_frame:
  assumes "Download_Write cap b d w = ((n, err), d', w')"
  shows "same_session d d'"
    and "received d' = received d + of_nat n"
    and "log w' = log w @ [Progress (received d')]"
    and "n \<le> length b"
  using assms
  by (auto simp: Download_Write_def File_Write_def Let_def min_def same_session_def
           split: prod.splits option.splits if_splits)

lemma StreamWriter_Write_frame:
  assumes "StreamWriter_Write cr k pos cap src d w = ((n, err), d', w')"
  shows "same_session d d'"
    and "received d' = received d + of_nat n"
    and "log w' = log w @ [Progress (received d')]"
    and "n \<le> length src"
    and "err = None \<Longrightarrow> n = length src"
proof -
  obtain n0 err0 where dw: "Download_Write cap (xor_stream cr k pos src) d w = ((n0, err0), d', w')"
    and n: "n = n0" and e: "err = (if n0 \<noteq> length src \<and> err0 = None then Some ShortWrite else err0)"
    using assms by (auto simp: StreamWriter_Write_def split: prod.splits)
  have len: "length (xor_stream cr k pos src) = length src"
    by (simp add: xor_stream_def)
  from Download_Write_frame[OF dw] n len
  show "same_session d d'" and "received d' = received d + of_nat n"
    and "log w' = log w @ [Progress (received d')]"
    and "n \<le> length src" by simp_all
  show "err = None \<Longrightarrow> n = length src" using e n by (auto split: if_splits)
qed

lemma tee_read_all_frame:
  "tee_read_all cr k lim pos cs rerr caps acc d w = (res, d', w') \<Longrightarrow>
     same_session d d' \<and> (\<exists>vs. log w' = log w @ map Progress vs)"
proof (induction cs arbitrary: lim pos caps acc d w)
  case Nil
  then show ?case by (auto simp: same_session_refl split: if_splits)
next
  case (Cons c cs)
  show ?case
  proof (cases "lim = 0")
    case True
    with Cons.prems show ?thesis by (auto simp: same_session_refl)
  next
    case lim: False
    show ?thesis
    proof (cases "take lim c = []")
      case True
      with lim Cons.prems have "tee_read_all cr k lim pos cs rerr caps acc d w = (res, d', w')"
        by simp
      from Cons.IH[OF this] show ?thesis .
    next
      case False
      obtain n err d1 w1 where sw:
        "StreamWriter_Write cr k pos (case caps of [] \<Rightarrow> None | x # _ \<Rightarrow> x) (take lim c) d w = ((n, err), d1, w1)"
        by (metis prod.exhaust)
      note fr = StreamWriter_Write_frame[OF sw]
      show ?thesis
      proof (cases err)
        case (Some e)
        with lim False sw Cons.prems have "d' = d1" "w' = w1" by (auto simp: Let_def)
        moreover have "log w1 = log w @ map Progress [received d1]" using fr(3) by simp
        ultimately show ?thesis using fr(1) by blast
      next
        case None
        with lim False sw Cons.prems have
          "tee_read_all cr k (lim - length (take lim c)) (pos + length (take lim c)) cs rerr (tl caps) (acc @ take lim c) d1 w1 = (res, d', w')"
          by (auto simp: Let_def)
        from Cons.IH[OF this] obtain vs where
          a: "same_session d1 d'"
          and b: "log w' = log w1 @ map Progress vs" by blast
        have "log w' = log w @ map Progress (received d1 # vs)" using b fr(3) by simp
        moreover have "same_session d d'"
          using a fr(1) by (rule same_session_trans[rotated])
        ultimately show ?thesis by blast
      qed
    qed
  qed
qed

lemma tee_read_all_data:
  "tee_read_all cr k lim pos cs rerr caps acc d w = (Inr bs, d', w') \<Longrightarrow>
     bs = acc @ take lim (concat cs)"
proof (induction cs arbitrary: lim pos caps acc d w)
  case Nil
  then show ?case by (auto split: if_splits)
next
  case (Cons c cs)
  show ?case
  proof (cases "lim = 0")
    case True
    with Cons.prems show ?thesis by auto
  next
    case lim: False
    show ?thesis
    proof (cases "take lim c = []")
      case True
      with lim Cons.prems have "tee_read_all cr k lim pos cs rerr caps acc d w = (Inr bs, d', w')"
        by simp
      from Cons.IH[OF this] True lim show ?thesis by simp
    next
      case False
      obtain n err d1 w1 where sw:
        "StreamWriter_Write cr k pos (case caps of [] \<Rightarrow> None | x # _ \<Rightarrow> x) (take lim c) d w = ((n, err), d1, w1)"
        by (metis prod.exhaust)
      show ?thesis
      proof (cases err)
        case (Some e)
        with lim False sw Cons.prems show ?thesis by (auto simp: Let_def)
      next
        case None
        with lim False sw Cons.prems have
          "tee_read_all cr k (lim - length (take lim c)) (pos + length (take lim c)) cs rerr (tl caps) (acc @ take lim c) d1 w1 = (Inr bs, d', w')"
          by (auto simp: Let_def)
        from Cons.IH[OF this] have "bs = (acc @ take lim c) @ take (lim - length (take lim c)) (concat cs)" .
        then show ?thesis by (simp add: min_def)
      qed
    qed
  qed
qed

lemma ReaderMerkleRoot_frame:
  assumes "ReaderMerkleRoot cr k lim a d w = (res, d', w')"
  shows "same_session d d' \<and> (\<exists>vs. log w' = log w @ map Progress vs)"
proof -
  obtain r0 where "tee_read_all cr k lim 0 (reads a) (read_err a) (writes a) [] d w = (r0, d', w')"
    using assms by (auto simp: ReaderMerkleRoot_def split: prod.splits sum.splits)
  from tee_read_all_frame[OF this] show ?thesis .
qed

lemma ReaderMerkleRoot_data:
  assumes "ReaderMerkleRoot cr k lim a d w = (Inr root, d', w')"
  shows "root = merkleRoot cr (take lim (concat (reads a)))"
proof -
  obtain bs where t: "tee_read_all cr k lim 0 (reads a) (read_err a) (writes a) [] d w = (Inr bs, d', w')"
    and r: "root = merkleRoot cr bs"
    using assms by (auto simp: ReaderMerkleRoot_def split: prod.splits sum.splits)
  from tee_read_all_data[OF t] r show ?thesis by simp
qed

lemma downloadPiece_frame:
  assumes "downloadPiece cr a piece d w = (res, d', w')"
  shows "same_session d d' \<and> (\<exists>vs. log w' = log w @ map Progress vs)"
proof (cases "dial_ok a \<and> tag_ok a \<and> id_ok a")
  case False
  with assms have "d' = d" "w' = w" by (auto simp: downloadPiece_def split: if_splits)
  moreover have "log w = log w @ map Progress []" by simp
  ultimately show ?thesis using same_session_refl by blast
next
  case True
  obtain r0 where "ReaderMerkleRoot cr (EncryptionKey piece) (read_limit piece) a d w = (r0, d', w')"
    using assms True by (auto simp: downloadPiece_def split: prod.splits sum.splits if_splits)
  from ReaderMerkleRoot_frame[OF this] show ?thesis .
qed

lemma word_add_nat:
  fixes x :: uint64
  assumes "unat x + n < 2 ^ 64"
  shows "unat (x + of_nat n) = unat x + n"
proof -
  have n: "unat (of_nat n :: uint64) = n" using assms by (simp add: unat_of_nat)
  with assms have "unat x + unat (of_nat n :: uint64) < 2 ^ LENGTH(64)" by simp
  then have "unat (x + of_nat n) = unat x + unat (of_nat n :: uint64)"
    by (simp only: unat_add_lem)
  with n show ?thesis by simp
qed

lemma read_limit_le: "read_limit piece \<le> unat (FileSize (Contract piece))"
proof -
  have "sint (FileSize (Contract piece)) \<le> uint (FileSize (Contract piece))"
    by (simp add: sint_uint signed_take_bit_int_less_eq_self_iff order_trans[of _ 0])
  then have "nat (sint (FileSize (Contract piece))) \<le> nat (uint (FileSize (Contract piece)))"
    by (rule nat_mono)
  then show ?thesis by (simp only: read_limit_def unat_eq_nat_uint)
qed

lemma backoff_eq:
  assumes "i < 5"
  shows "backoff i rb = 1000000000 * int (i * i) * uint rb"
proof -
  define m where "m = int (i * i) * uint rb"
  have w: "(1000000000 :: 64 word) * of_nat (i * i) * ucast rb = word_of_int (1000000000 * m)"
    by (simp add: word_of_int_uint m_def)
  have "int i \<le> 4" using assms by simp
  then have "int i * int i \<le> 4 * 4" by (intro mult_mono) simp_all
  then have ii: "int (i * i) \<le> 16" by simp
  have "uint rb < 2 ^ 8" using uint_bounded[of rb] by simp
  then have rb: "uint rb \<le> 255" by simp
  have "m \<le> 16 * 255"
    unfolding m_def using ii rb by (intro mult_mono) simp_all
  then have hi: "1000000000 * m < 2 ^ 63" by simp
  have "0 \<le> m" by (simp add: m_def)
  then have lo: "- (2 ^ 63) \<le> 1000000000 * m" by simp
  have "backoff i rb = signed_take_bit 63 (1000000000 * m)"
    unfolding backoff_def w sint_sbintrunc' by simp
  also have "\<dots> = 1000000000 * m" using lo hi by (rule signed_take_bit_int_eq_self)
  finally show ?thesis by (simp add: m_def)
qed

lemma tee_read_all_counts:
  "tee_read_all cr k lim pos cs rerr caps acc d w = (res, d', w') \<Longrightarrow>
   unat (received d) + lim < 2 ^ 64 \<Longrightarrow>
     \<exists>vs. log w' = log w @ map Progress vs \<and> sorted (received d # vs)
        \<and> (\<forall>v\<in>set vs. unat v \<le> unat (received d) + lim)"
proof (induction cs arbitrary: lim pos caps acc d w)
  case Nil
  then have "log w' = log w @ map Progress []" by (auto split: if_splits)
  then show ?case by (metis empty_iff list.set(1) sorted1)
next
  case (Cons c cs)
  show ?case
  proof (cases "lim = 0 \<or> take lim c = []")
    case True
    show ?thesis
    proof (cases "lim = 0")
      case True
      with Cons.prems have "log w' = log w @ map Progress []" by auto
      then show ?thesis by (metis empty_iff list.set(1) sorted1)
    next
      case False
      with True Cons.prems have "tee_read_all cr k lim pos cs rerr caps acc d w = (res, d', w')"
        by simp
      from Cons.IH[OF this Cons.prems(2)] show ?thesis .
    qed
  next
    case False
    then have lim: "lim \<noteq> 0" and p: "take lim c \<noteq> []" by simp_all
    obtain n err d1 w1 where sw:
      "StreamWriter_Write cr k pos (case caps of [] \<Rightarrow> None | x # _ \<Rightarrow> x) (take lim c) d w = ((n, err), d1, w1)"
      by (metis prod.exhaust)
    note fr = StreamWriter_Write_frame[OF sw]
    have nlim: "n \<le> lim" using fr(4) by simp
    then have "unat (received d) + n < 2 ^ 64" using Cons.prems(2) by simp
    then have u1: "unat (received d1) = unat (received d) + n"
      unfolding fr(2) by (rule word_add_nat)
    then have le1: "received d \<le> received d1" by (simp add: word_le_nat_alt)
    show ?thesis
    proof (cases err)
      case (Some x)
      with lim p sw Cons.prems have "w' = w1" by (auto simp: Let_def)
      then have "log w' = log w @ map Progress [received d1]" using fr(3) by simp
      moreover have "sorted [received d, received d1]" using le1 by simp
      moreover have "\<forall>v\<in>set [received d1]. unat v \<le> unat (received d) + lim"
        using u1 nlim by simp
      ultimately show ?thesis by blast
    next
      case None
      then have n: "n = length (take lim c)" using fr(5) by simp
      from None lim p sw Cons.prems have run:
        "tee_read_all cr k (lim - length (take lim c)) (pos + length (take lim c)) cs rerr (tl caps) (acc @ take lim c) d1 w1 = (res, d', w')"
        by (auto simp: Let_def)
      have eq: "unat (received d1) + (lim - length (take lim c)) = unat (received d) + lim"
        using u1 n nlim by simp
      then have "unat (received d1) + (lim - length (take lim c)) < 2 ^ 64"
        using Cons.prems(2) by simp
      from Cons.IH[OF run this] obtain vs where
        a: "log w' = log w1 @ map Progress vs" and b: "sorted (received d1 # vs)"
        and c: "\<forall>v\<in>set vs. unat v \<le> unat (received d1) + (lim - length (take lim c))"
        by blast
      have "log w' = log w @ map Progress (received d1 # vs)" using a fr(3) by simp
      moreover have "sorted (received d # received d1 # vs)" using b le1 by (auto intro: order_trans)
      moreover have "\<forall>v\<in>set (received d1 # vs). unat v \<le> unat (received d) + lim"
        using c u1 nlim unfolding eq by simp
      ultimately show ?thesis by blast
    qed
  qed
qed

lemma downloadPiece_counts:
  assumes "downloadPiece cr a piece d w = (res, d', w')" and "received d = 0"
  shows "\<exists>vs. log w' = log w @ map Progress vs \<and> sorted (0 # vs)
           \<and> (\<forall>v\<in>set vs. v \<le> FileSize (Contract piece))"
proof (cases "dial_ok a \<and> tag_ok a \<and> id_ok a")
  case False
  with assms have "w' = w" by (auto simp: downloadPiece_def split: if_splits)
  then have "log w' = log w @ map Progress []" by simp
  moreover have "sorted [0::uint64]" by simp
  ultimately show ?thesis by (metis empty_iff list.set(1))
next
  case True
  then obtain r0 where "tee_read_all cr (EncryptionKey piece) (read_limit piece) 0 (reads a) (read_err a) (writes a) [] d w = (r0, d', w')"
    using assms(1) by (auto simp: downloadPiece_def ReaderMerkleRoot_def split: prod.splits sum.splits if_splits)
  moreover have "unat (received d) + read_limit piece < 2 ^ 64"
    using read_limit_le[of piece] unsigned_less[of "FileSize (Contract piece)", where ?'a = nat] assms(2) by simp
  ultimately obtain vs where a: "log w' = log w @ map Progress vs" and b: "sorted (received d # vs)"
    and c: "\<forall>v\<in>set vs. unat v \<le> unat (received d) + read_limit piece"
    using tee_read_all_counts by blast
  have "\<forall>v\<in>set vs. v \<le> FileSize (Contract piece)"
    using c read_limit_le[of piece] assms(2) by (auto simp: word_le_nat_alt intro: order_trans)
  with a b assms(2) show ?thesis by auto
qed

section \<open>The shape of a run\<close>

lemma same_session_identity: "same_session d d' \<Longrightarrow> same_identity d d'"
  by (simp add: same_session_def same_identity_def)

lemma same_identity_refl: "same_identity d d"
  by (simp add: same_identity_def)

lemma same_identity_trans: "same_identity a b \<Longrightarrow> same_identity b c \<Longrightarrow> same_identity a c"
  by (simp add: same_identity_def)

lemma pieces_loop_trace:
  "pieces_loop cr e i j ps d w = (ok, d', w') \<Longrightarrow> \<not> closed (handle d) \<Longrightarrow>
   received d = 0 \<Longrightarrow> offset (handle d) = 0 \<Longrightarrow>
     (\<exists>new. log w' = log w @ new \<and> pass_trace i j ps ok new)
     \<and> same_identity d d'
     \<and> (if ok then complete d' \<and> closed (handle d')
         else same_session d d' \<and> received d' = 0 \<and> offset (handle d') = 0)"
proof (induction ps arbitrary: j d w)
  case Nil
  then have "ok = False" "d' = d" "log w' = log w @ []" by auto
  then show ?case using Nil.prems pass_end same_session_refl same_identity_refl
    by (metis (full_types))
next
  case (Cons piece ps)
  let ?w0 = "emit (Begin i j (received d) (offset (handle d))) w"
  obtain err d1 w1 where dp: "downloadPiece cr (host e i j) piece d ?w0 = (err, d1, w1)"
    by (metis prod.exhaust)
  from downloadPiece_frame[OF dp] have ss: "same_session d d1" by blast
  from downloadPiece_counts[OF dp Cons.prems(3)] obtain vs where
    lg: "log w1 = log ?w0 @ map Progress vs" and srt: "sorted (0 # vs)"
    and bd: "\<forall>v\<in>set vs. v \<le> FileSize (Contract piece)" by blast
  have lg1: "log w1 = log w @ Begin i j 0 0 # map Progress vs"
    using lg Cons.prems(3,4) by (simp add: emit_def)
  show ?case
  proof (cases err)
    case None
    with dp Cons.prems(1) have ok: "ok = True"
      and d': "d' = d1\<lparr>complete := True, handle := File_Close (handle d1)\<rparr>"
      and w': "w' = emit Close (emit (Finish i j None) w1)" by auto
    have "log w' = log w @ (Begin i j 0 0 # map Progress vs @ [Finish i j None, Close])"
      using w' lg1 by (simp add: emit_def)
    moreover have "pass_trace i j (piece # ps) True (Begin i j 0 0 # map Progress vs @ [Finish i j None, Close])"
      using srt bd by (rule pass_success)
    moreover have "same_identity d d'" using ss d'
      by (simp add: same_session_def same_identity_def File_Close_def)
    moreover have "complete d' \<and> closed (handle d')" using d' by (simp add: File_Close_def)
    ultimately show ?thesis using ok by auto
  next
    case (Some x)
    let ?d3 = "d1\<lparr>handle := File_Seek0 (handle d1), received := 0\<rparr>"
    let ?w3 = "emit (Reset 0 0) (emit (Finish i j (Some x)) w1)"
    have op: "\<not> closed (handle d1)" using ss Cons.prems(2) by (simp add: same_session_def)
    then have off: "offset (handle ?d3) = 0" and op3: "\<not> closed (handle ?d3)"
      by (simp_all add: File_Seek0_def)
    have run: "pieces_loop cr e i (Suc j) ps ?d3 ?w3 = (ok, d', w')"
      using Some dp Cons.prems(1) op by (simp add: Let_def File_Seek0_def)
    from Cons.IH[OF run op3 _ off] obtain new where
      a: "log w' = log ?w3 @ new" and b: "pass_trace i (Suc j) ps ok new"
      and c: "same_identity ?d3 d'"
      and e: "if ok then complete d' \<and> closed (handle d')
         else same_session ?d3 d' \<and> received d' = 0 \<and> offset (handle d') = 0"
      by auto
    have ss3: "same_session d ?d3" using ss op by (simp add: same_session_def File_Seek0_def)
    have "log w' = log w @ (Begin i j 0 0 # map Progress vs @ Finish i j (Some x) # Reset 0 0 # new)"
      using a lg1 by (simp add: emit_def)
    moreover have "pass_trace i j (piece # ps) ok (Begin i j 0 0 # map Progress vs @ Finish i j (Some x) # Reset 0 0 # new)"
      using srt bd b by (rule pass_fail)
    moreover have "same_identity d d'"
      using same_identity_trans[OF same_session_identity[OF ss3] c] .
    moreover have "if ok then complete d' \<and> closed (handle d')
         else same_session d d' \<and> received d' = 0 \<and> offset (handle d') = 0"
      using e ss3 by (auto intro: same_session_trans)
    ultimately show ?thesis by blast
  qed
qed

lemma passes_loop_trace:
  "passes_loop cr e i d w = (ok, d', w') \<Longrightarrow> \<not> closed (handle d) \<Longrightarrow>
   received d = 0 \<Longrightarrow> offset (handle d) = 0 \<Longrightarrow>
     (\<exists>new. log w' = log w @ new \<and> run_trace e (pieces d) i ok new)
     \<and> same_identity d d'
     \<and> (if ok then complete d' \<and> closed (handle d')
         else same_session d d' \<and> received d' = 0 \<and> offset (handle d') = 0)"
proof (induction cr e i d w rule: passes_loop.induct)
  case (1 cr e i d w)
  show ?case
  proof (cases "i < downloadAttempts")
    case False
    with "1.prems"(1) have "ok = False" "d' = d" "log w' = log w @ []"
      by (simp_all add: passes_loop.simps)
    moreover have "run_trace e (pieces d) i False []" using False by (rule run_end)
    ultimately show ?thesis using "1.prems" same_session_refl same_identity_refl
      by (metis (full_types))
  next
    case True
    obtain ok1 d1 w1 where pl: "pieces_loop cr e i 0 (pieces d) d w = (ok1, d1, w1)"
      by (metis prod.exhaust)
    from pieces_loop_trace[OF pl "1.prems"(2,3,4)] obtain new1 where
      a: "log w1 = log w @ new1" and b: "pass_trace i 0 (pieces d) ok1 new1"
      and c: "same_identity d d1"
      and e: "if ok1 then complete d1 \<and> closed (handle d1)
         else same_session d d1 \<and> received d1 = 0 \<and> offset (handle d1) = 0"
      by auto
    show ?thesis
    proof (cases ok1)
      case True
      with pl \<open>i < downloadAttempts\<close> "1.prems"(1) have "ok = True" "d' = d1" "w' = w1"
        by (simp_all add: passes_loop.simps)
      moreover have "run_trace e (pieces d) i True new1"
        using \<open>i < downloadAttempts\<close> b True by (auto intro: run_success)
      ultimately show ?thesis using a c e True by auto
    next
      case False
      let ?w2 = "emit (Sleep (backoff i (rand e i))) w1"
      have run: "passes_loop cr e (Suc i) d1 ?w2 = (ok, d', w')"
        using pl \<open>i < downloadAttempts\<close> "1.prems"(1) False by (simp add: passes_loop.simps)
      have ss: "same_session d d1" and r1: "received d1 = 0" and o1: "offset (handle d1) = 0"
        using e False by simp_all
      have op1: "\<not> closed (handle d1)" using ss "1.prems"(2) by (simp add: same_session_def)
      have pc: "pieces d1 = pieces d" using ss by (simp add: same_session_def)
      from "1.IH"[OF \<open>i < downloadAttempts\<close> pl[symmetric] _ _ run op1 r1 o1] False
      obtain new2 where
        a2: "log w' = log ?w2 @ new2" and b2: "run_trace e (pieces d) (Suc i) ok new2"
        and c2: "same_identity d1 d'"
        and e2: "if ok then complete d' \<and> closed (handle d')
           else same_session d1 d' \<and> received d' = 0 \<and> offset (handle d') = 0"
        using pc by auto
      have "log w' = log w @ (new1 @ Sleep (backoff i (rand e i)) # new2)"
        using a a2 by (simp add: emit_def)
      moreover have "run_trace e (pieces d) i ok (new1 @ Sleep (backoff i (rand e i)) # new2)"
        using \<open>i < downloadAttempts\<close> b b2 False by (auto intro: run_retry)
      moreover have "same_identity d d'" using c c2 by (rule same_identity_trans)
      moreover have "if ok then complete d' \<and> closed (handle d')
           else same_session d d' \<and> received d' = 0 \<and> offset (handle d') = 0"
        using e2 ss by (auto intro: same_session_trans)
      ultimately show ?thesis by blast
    qed
  qed
qed

lemma finished_append: "finished (xs @ ys) = finished xs @ finished ys"
  by (induction xs rule: finished.induct) simp_all


lemma finished_Progress: "finished (map Progress vs @ ys) = finished ys"
  by (induction vs) simp_all


lemma succeeded_Progress: "ev \<in> set (map Progress vs) \<Longrightarrow> \<not> succeeded ev"
  by auto

lemma reset_after_failure_Progress:
  "reset_after_failure (map Progress vs @ ys) = reset_after_failure ys"
  by (induction vs) simp_all

lemma climbs_Progress:
  "sorted (v # vs) \<Longrightarrow> climbs v (map Progress vs @ ys) = climbs (last (v # vs)) ys"
  by (induction vs arbitrary: v) auto


lemma pass_trace_failed:
  "pass_trace i j ps ok evs \<Longrightarrow> \<not> ok \<Longrightarrow>
     finished evs = map (\<lambda>k. (i, k, False)) [j..<j + length ps]
     \<and> (\<forall>ev\<in>set evs. \<not> succeeded ev)
     \<and> reset_after_failure (evs @ rest) = reset_after_failure rest
     \<and> climbs 0 (evs @ rest) = climbs 0 rest"
proof (induction arbitrary: rest rule: pass_trace.induct)
  case (pass_end i j)
  then show ?case by simp
next
  case (pass_fail vs piece i j ps ok evs x)
  have "[j..<j + length (piece # ps)] = j # [Suc j..<Suc j + length ps]"
    by (subst upt_rec) simp
  with pass_fail show ?case
    by (auto simp: finished_Progress reset_after_failure_Progress climbs_Progress)
next
  case (pass_success vs piece i j ps)
  then show ?case by simp
qed


lemma pass_trace_succeeded:
  "pass_trace i j ps ok evs \<Longrightarrow> ok \<Longrightarrow>
     \<exists>pre k. evs = pre @ [Finish i k None, Close] \<and> (\<forall>ev\<in>set pre. \<not> succeeded ev)"
proof (induction rule: pass_trace.induct)
  case (pass_end i j)
  then show ?case by simp
next
  case (pass_fail vs piece i j ps ok evs x)
  then obtain pre k where "evs = pre @ [Finish i k None, Close]" and "\<forall>ev\<in>set pre. \<not> succeeded ev"
    by blast
  then have "Begin i j 0 0 # map Progress vs @ Finish i j (Some x) # Reset 0 0 # evs
      = (Begin i j 0 0 # map Progress vs @ Finish i j (Some x) # Reset 0 0 # pre) @ [Finish i k None, Close]"
    and "\<forall>ev\<in>set (Begin i j 0 0 # map Progress vs @ Finish i j (Some x) # Reset 0 0 # pre). \<not> succeeded ev"
    by auto
  then show ?case by blast
next
  case (pass_success vs piece i j ps)
  have "Begin i j 0 0 # map Progress vs @ [Finish i j None, Close]
      = (Begin i j 0 0 # map Progress vs) @ [Finish i j None, Close]"
    and "\<forall>ev\<in>set (Begin i j 0 0 # map Progress vs). \<not> succeeded ev"
    by auto
  then show ?case by blast
qed

lemma pass_trace_sound:
  "pass_trace i j ps ok evs \<Longrightarrow> reset_after_failure evs \<and> climbs 0 evs"
  by (induction rule: pass_trace.induct)
     (auto simp: reset_after_failure_Progress climbs_Progress)



lemma run_trace_outcome:
  "run_trace e ps i ok new \<Longrightarrow>
     (if ok then \<exists>pre p k. new = pre @ [Finish p k None, Close] \<and> (\<forall>ev\<in>set pre. \<not> succeeded ev)
      else \<forall>ev\<in>set new. \<not> succeeded ev)"
proof (induction rule: run_trace.induct)
  case (run_end i e ps)
  then show ?case by simp
next
  case (run_success i ps evs e)
  from pass_trace_succeeded[OF run_success(2)] show ?case by auto
next
  case (run_retry i ps evs e ok evs')
  from pass_trace_failed[OF run_retry(2)] have f: "\<forall>ev\<in>set evs. \<not> succeeded ev" by simp
  show ?case
  proof (cases ok)
    case True
    with run_retry.IH obtain pre p k where "evs' = pre @ [Finish p k None, Close]"
      and "\<forall>ev\<in>set pre. \<not> succeeded ev" by auto
    then have "evs @ Sleep (backoff i (rand e i)) # evs'
        = (evs @ Sleep (backoff i (rand e i)) # pre) @ [Finish p k None, Close]"
      and "\<forall>ev\<in>set (evs @ Sleep (backoff i (rand e i)) # pre). \<not> succeeded ev"
      using f by auto
    then show ?thesis using True by auto
  next
    case False
    with run_retry.IH f show ?thesis by auto
  qed
qed

lemma run_trace_exhausted:
  "run_trace e ps i ok new \<Longrightarrow> \<not> ok \<Longrightarrow>
     finished new
       = concat (map (\<lambda>p. map (\<lambda>k. (p, k, False)) [0..<length ps]) [i..<downloadAttempts])"
proof (induction rule: run_trace.induct)
  case (run_end i e ps)
  then show ?case by simp
next
  case (run_success i ps evs e)
  then show ?case by simp
next
  case (run_retry i ps evs e ok evs')
  from pass_trace_failed[OF run_retry(2)]
  have "finished evs = map (\<lambda>k. (i, k, False)) [0..<length ps]" by simp
  moreover have "[i..<downloadAttempts] = i # [Suc i..<downloadAttempts]"
    using run_retry(1) by (simp add: upt_conv_Cons)
  ultimately show ?case using run_retry by (simp add: finished_append)
qed

lemma run_trace_sound:
  "run_trace e ps i ok new \<Longrightarrow> reset_after_failure new \<and> climbs 0 new"
proof (induction rule: run_trace.induct)
  case (run_end i e ps)
  then show ?case by simp
next
  case (run_success i ps evs e)
  then show ?case using pass_trace_sound by blast
next
  case (run_retry i ps evs e ok evs')
  from pass_trace_failed[OF run_retry(2), of "Sleep (backoff i (rand e i)) # evs'"] run_retry.IH
  show ?case by simp
qed






lemma newDownload_fresh:
  assumes "newDownload e f dest w = (Inr d, w1)"
  shows "received d = 0" and "\<not> closed (handle d)" and "offset (handle d) = 0"
    and "path (handle d) = dest" and "destination d = dest" and "nickname d = Name f"
    and "pieces d = filter Active (Pieces f)" and "\<not> complete d"
    and "log w1 = log w" and "disk w1 = (disk w)(dest \<mapsto> [])"
    and "filesize d = FileSize (Contract (hd (Pieces f)))"
    and "pieces d \<noteq> []"
  using assms
  by (auto simp: newDownload_def os_Create_def Let_def split: if_splits list.splits)

lemma Renter_Download_run:
  assumes "Renter_Download cr e nick dest r w = (res, r', w')"
    and "files r nick = Some f" and "newDownload e f dest w = (Inr d, w1)"
  shows "\<exists>ok d2 new. run_trace e (pieces d) 0 ok new \<and> same_identity d d2
      \<and> downloadQueue r' = downloadQueue r @ [length (heap r)]
      \<and> files r' = files r
      \<and> (if ok
          then res = None \<and> log w' = log w @ new \<and> heap r' = heap r @ [d2]
               \<and> complete d2 \<and> closed (handle d2)
          else res = Some CouldNotDownload \<and> log w' = log w @ new @ [Close, Remove dest]
               \<and> heap r' = heap r @ [d2\<lparr>handle := File_Close (handle d2)\<rparr>]
               \<and> \<not> complete d2 \<and> disk w' dest = None)"
proof -
  note fr = newDownload_fresh[OF assms(3)]
  obtain ok d2 w2 where pl: "passes_loop cr e 0 d w1 = (ok, d2, w2)"
    by (metis prod.exhaust)
  from passes_loop_trace[OF pl fr(2,1,3)] obtain new where
    a: "log w2 = log w1 @ new" and b: "run_trace e (pieces d) 0 ok new"
    and c: "same_identity d d2"
    and e: "if ok then complete d2 \<and> closed (handle d2)
         else same_session d d2 \<and> received d2 = 0 \<and> offset (handle d2) = 0"
    by auto
  show ?thesis
  proof (cases ok)
    case True
    with assms pl have "res = None" "w' = w2"
      "heap r' = heap r @ [d2]" "downloadQueue r' = downloadQueue r @ [length (heap r)]"
      "files r' = files r"
      by (auto simp: Renter_Download_def Let_def)
    with True a b c e fr(9) show ?thesis by auto
  next
    case False
    with assms pl have "res = Some CouldNotDownload" "w' = os_Remove dest (emit Close w2)"
      "heap r' = heap r @ [d2\<lparr>handle := File_Close (handle d2)\<rparr>]"
      "downloadQueue r' = downloadQueue r @ [length (heap r)]" "files r' = files r"
      by (auto simp: Renter_Download_def Let_def)
    moreover have "\<not> complete d2" using e False fr(8) by (simp add: same_session_def)
    ultimately show ?thesis using False a b c fr(9)
      by (auto simp: os_Remove_def emit_def)
  qed
qed

lemma reset_after_failure_append:
  "reset_after_failure xs \<Longrightarrow> reset_after_failure ys \<Longrightarrow> reset_after_failure (xs @ ys)"
  by (induction xs rule: reset_after_failure.induct) (auto split: list.splits event.splits)

lemma reset_after_failure_Begin:
  "reset_after_failure evs \<Longrightarrow> Begin i j v off \<in> set evs \<Longrightarrow> v = 0 \<and> off = 0"
  by (induction evs rule: reset_after_failure.induct) (auto split: list.splits event.splits)



lemma DownloadQueue_rev: "DownloadQueue r = rev (downloadQueue r)"
  unfolding DownloadQueue_def
  by (rule nth_equalityI) (simp_all add: rev_nth)

lemma Renter_Download_rejected:
  assumes "Renter_Download cr e nick dest r w = (res, r', w')"
    and "files r nick = None \<or> (\<exists>f err w1. files r nick = Some f \<and> newDownload e f dest w = (Inl err, w1))"
  shows "r' = r \<and> res \<noteq> None \<and> log w' = log w"
  using assms
  by (auto simp: Renter_Download_def newDownload_def os_Create_def Let_def
           split: option.splits if_splits list.splits)

section \<open>Two runs\<close>

lemmas demo_defs =
  demo_crypto_def piece_A_def attempt_good_def attempt_bad_def attempt_refused_def
  fresh_session_def fresh_world_def

lemmas piece_defs =
  downloadPiece_def ReaderMerkleRoot_def read_limit_def StreamWriter_Write_def
  Download_Write_def File_Write_def xor_stream_def overwrite_def enumerate_eq_zip Let_def

lemma bad_run:
  "downloadPiece demo_crypto attempt_bad piece_A fresh_session fresh_world
   = (Some InvalidFile,
      fresh_session\<lparr>received := 2, handle := \<lparr>path = ''out'', offset = 2, closed = False\<rparr>\<rparr>,
      \<lparr>disk = [''out'' \<mapsto> [8, 7]], log = [Progress 1, Progress 2]\<rparr>)"
  by (simp add: piece_defs demo_defs)

lemma good_run:
  "downloadPiece demo_crypto attempt_good piece_A fresh_session fresh_world
   = (None,
      fresh_session\<lparr>received := 2, handle := \<lparr>path = ''out'', offset = 2, closed = False\<rparr>\<rparr>,
      \<lparr>disk = [''out'' \<mapsto> [4, 7]], log = [Progress 1, Progress 2]\<rparr>)"
  by (simp add: piece_defs demo_defs)

lemmas run_defs =
  Renter_Download_def newDownload_def os_Create_def os_Remove_def emit_def
  passes_loop.simps downloadAttempts_def File_Seek0_def File_Close_def
  demo_renter_def empty_world_def demo_env_def failing_env_def piece_small_def

lemma backoff_3:
  "backoff 0 3 = 0" "backoff (Suc 0) 3 = 3000000000" "backoff (Suc (Suc 0)) 3 = 12000000000"
  "backoff (Suc (Suc (Suc 0))) 3 = 27000000000"
  "backoff (Suc (Suc (Suc (Suc 0)))) 3 = 48000000000"
  by (simp_all add: backoff_eq)

lemma run_done:
  "Renter_Download demo_crypto demo_env ''f'' ''out'' demo_renter empty_world
   = (None,
      demo_renter\<lparr>heap := [done_session], downloadQueue := [0]\<rparr>,
      \<lparr>disk = [''out'' \<mapsto> [4, 7]], log = done_log\<rparr>)"
  by (simp add: run_defs piece_defs demo_defs done_session_def done_log_def backoff_3)

lemma run_failed:
  "Renter_Download demo_crypto failing_env ''f'' ''out'' demo_renter empty_world
   = (Some CouldNotDownload,
      demo_renter\<lparr>heap := [failed_session], downloadQueue := [0]\<rparr>,
      \<lparr>disk = Map.empty, log = failed_log\<rparr>)"
  by (simp add: run_defs piece_defs demo_defs failed_session_def failed_log_def backoff_3)

lemma file_f: "files demo_renter ''f'' = Some \<lparr>Name = ''f'', Pieces = [piece_A]\<rparr>"
  by (simp add: demo_renter_def)

lemma new_f_demo:
  "newDownload demo_env \<lparr>Name = ''f'', Pieces = [piece_A]\<rparr> ''out'' empty_world
     = (Inr fresh_session, fresh_world)"
  by (simp add: run_defs demo_defs)

lemma new_f_failing:
  "newDownload failing_env \<lparr>Name = ''f'', Pieces = [piece_A]\<rparr> ''out'' empty_world
     = (Inr fresh_session, fresh_world)"
  by (simp add: run_defs demo_defs)


lemma run_idle:
  "Renter_Download demo_crypto demo_env ''idle'' ''out'' demo_renter empty_world
   = (Some NoActivePieces, demo_renter, \<lparr>disk = [''out'' \<mapsto> []], log = []\<rparr>)"
  by (simp add: run_defs demo_defs)

lemma demo_queue_wf: "queue_wf demo_renter"
  by (simp add: queue_wf_def demo_renter_def)

lemma demo_write:
  "Download_Write (Some 2) [1, 2, 3] demo_session demo_world =
     ((2, Some WriteError),
      demo_session\<lparr>handle := demo_handle\<lparr>offset := 3\<rparr>, received := 3\<rparr>,
      demo_world\<lparr>disk := [''out'' \<mapsto> [9, 1, 2]], log := [Progress 3]\<rparr>)"
  by (simp add: Download_Write_def File_Write_def demo_session_def demo_world_def
        demo_handle_def overwrite_def)

lemma run_second:
  "Renter_Download demo_crypto failing_env ''f'' ''out2'' served_renter served_world
   = (Some CouldNotDownload,
      demo_renter\<lparr>heap := [done_session, second_session], downloadQueue := [0, 1]\<rparr>,
      \<lparr>disk = [''out'' \<mapsto> [4, 7]],
       log = done_log @ take 20 failed_log @ [Close, Remove ''out2'']\<rparr>)"
  by (simp add: run_defs piece_defs demo_defs served_renter_def served_world_def
        second_session_def failed_log_def backoff_3 fun_upd_twist)

lemma run_third:
  "Renter_Download demo_crypto demo_env ''idle'' ''out3''
     (demo_renter\<lparr>heap := [done_session, second_session], downloadQueue := [0, 1]\<rparr>)
     served_world
   = (Some NoActivePieces,
      demo_renter\<lparr>heap := [done_session, second_session], downloadQueue := [0, 1]\<rparr>,
      served_world\<lparr>disk := [''out'' \<mapsto> [4, 7], ''out3'' \<mapsto> []]\<rparr>)"
  by (simp add: run_defs demo_defs served_world_def)

section \<open>Properties of Download.Write\<close>

text \<open>
  C6. Whatever the destination file does with the buffer (all of it written, part of
  it, or none), \<open>Download.Write\<close> returns the count and the error of the file's
  write as they are, and the counter has grown by exactly that count (modulo
  \<open>2^64\<close>) when it returns. The count is the number of bytes that reached the file:
  the cursor has advanced by it and the file holds the first \<open>n\<close> bytes of the
  buffer at the old cursor. The addition is one step of the sequential model.
\<close>

theorem Download_Write_accounts:
  assumes "Download_Write cap b d w = ((n, err), d', w')"
  shows "File_Write cap b (handle d) (disk w) = ((n, err), handle d', disk w')
   \<and> received d' = received d + of_nat n
   \<and> n \<le> length b
   \<and> (err = None \<longrightarrow> n = length b)
   \<and> (\<not> closed (handle d) \<longrightarrow>
        offset (handle d') = offset (handle d) + n
        \<and> (0 < n \<longrightarrow> disk w' (path (handle d))
              = Some (overwrite (case disk w (path (handle d)) of None \<Rightarrow> [] | Some c \<Rightarrow> c)
                        (offset (handle d)) (take n b))))
   \<and> log w' = log w @ [Progress (received d')]"
  using assms
  by (auto simp: Download_Write_def File_Write_def Let_def min_def
           split: prod.splits option.splits if_splits)

theorem Download_Write_accounts_witness:
  "Download_Write (Some 2) [1, 2, 3] demo_session demo_world =
     ((2, Some WriteError),
      demo_session\<lparr>handle := demo_handle\<lparr>offset := 3\<rparr>, received := 3\<rparr>,
      demo_world\<lparr>disk := [''out'' \<mapsto> [9, 1, 2]], log := [Progress 3]\<rparr>)
   \<and> received (demo_session\<lparr>handle := demo_handle\<lparr>offset := 3\<rparr>, received := 3\<rparr>)
       = received demo_session + 2"
  using Download_Write_accounts [OF demo_write] by (simp add: demo_write)

section \<open>Properties of a fetched piece\<close>

text \<open>
  C1, as the claim states it, takes the digest of the decrypted stream. The tee
  reader hands \<open>ReaderMerkleRoot\<close> the bytes as they come from the connection and
  only its writer side decrypts, so the digest that is compared is the one of the
  bytes received. With the toy cipher, the host that sends the stored bytes
  \<open>5, 6\<close> passes the check and the attempt returns nil, while the decrypted bytes
  \<open>4, 7\<close> that were written to the destination do not have the recorded digest.
\<close>

theorem downloadPiece_decrypted_digest_counterexample:
  "merkleRoot demo_crypto
     (xor_stream demo_crypto (EncryptionKey piece_A) 0
        (take (read_limit piece_A) (concat (reads attempt_good))))
     \<noteq> FileMerkleRoot (Contract piece_A)
   \<and> fst (downloadPiece demo_crypto attempt_good piece_A fresh_session fresh_world) = None
   \<and> disk (snd (snd (downloadPiece demo_crypto attempt_good piece_A fresh_session fresh_world)))
        ''out'' = Some [4, 7]"
  by (simp add: good_run) (simp add: piece_defs demo_defs)

text \<open>
  C1, amended. If the digest of the bytes that the bounded reader delivers (the first
  \<open>read_limit piece\<close> bytes of what the host sends, as received) differs from the
  contract's recorded digest, then \<open>downloadPiece\<close> returns an error, which is the
  integrity error whenever the stream was read to its end; the attempt leaves the
  completion flag as it was, and the loop does not report success for it. This holds
  for every length of the host's answer.
\<close>

theorem downloadPiece_integrity:
  assumes "merkleRoot cr (take (read_limit piece) (concat (reads a))) \<noteq> FileMerkleRoot (Contract piece)"
    and "downloadPiece cr a piece d w = (res, d', w')"
  shows "(\<exists>err. res = Some err) \<and> complete d' = complete d
     \<and> (\<forall>root. fst (ReaderMerkleRoot cr (EncryptionKey piece) (read_limit piece) a d w) = Inr root
           \<and> dial_ok a \<and> tag_ok a \<and> id_ok a \<longrightarrow> res = Some InvalidFile)
     \<and> (host e i j = a \<longrightarrow> (case pieces_loop cr e i j [piece] d w of (ok, d'', w'') \<Rightarrow> \<not> ok \<and> complete d'' = complete d))"
proof -
  have fr: "same_session d d'" using downloadPiece_frame[OF assms(2)] by blast
  have 1: "\<exists>err. res = Some err"
  proof (cases res)
    case None
    then obtain root where "ReaderMerkleRoot cr (EncryptionKey piece) (read_limit piece) a d w = (Inr root, d', w')"
      and "root = FileMerkleRoot (Contract piece)"
      using assms(2) by (auto simp: downloadPiece_def split: prod.splits sum.splits if_splits)
    with ReaderMerkleRoot_data[OF this(1)] assms(1) show ?thesis by simp
  qed simp
  have 2: "complete d' = complete d" using fr by (simp add: same_session_def)
  have 3: "\<forall>root. fst (ReaderMerkleRoot cr (EncryptionKey piece) (read_limit piece) a d w) = Inr root
           \<and> dial_ok a \<and> tag_ok a \<and> id_ok a \<longrightarrow> res = Some InvalidFile"
  proof (intro allI impI)
    fix root
    assume h: "fst (ReaderMerkleRoot cr (EncryptionKey piece) (read_limit piece) a d w) = Inr root
           \<and> dial_ok a \<and> tag_ok a \<and> id_ok a"
    then obtain d1 w1 where r: "ReaderMerkleRoot cr (EncryptionKey piece) (read_limit piece) a d w = (Inr root, d1, w1)"
      by (metis fst_conv prod.exhaust)
    from ReaderMerkleRoot_data[OF r] assms(1) have ne: "root \<noteq> FileMerkleRoot (Contract piece)" by simp
    with r h assms(2) show "res = Some InvalidFile"
      by (auto simp: downloadPiece_def)
  qed
  have 4: "host e i j = a \<longrightarrow> (case pieces_loop cr e i j [piece] d w of (ok, d'', w'') \<Rightarrow> \<not> ok \<and> complete d'' = complete d)"
  proof
    assume a: "host e i j = a"
    obtain res1 d1 w1 where dp: "downloadPiece cr a piece d (emit (Begin i j (received d) (offset (handle d))) w) = (res1, d1, w1)"
      by (metis prod.exhaust)
    from downloadPiece_frame[OF dp] have "complete d1 = complete d" by (simp add: same_session_def)
    moreover have "res1 \<noteq> None"
    proof
      assume "res1 = None"
      then obtain root where "ReaderMerkleRoot cr (EncryptionKey piece) (read_limit piece) a d (emit (Begin i j (received d) (offset (handle d))) w) = (Inr root, d1, w1)"
        and "root = FileMerkleRoot (Contract piece)"
        using dp by (auto simp: downloadPiece_def split: prod.splits sum.splits if_splits)
      with ReaderMerkleRoot_data[OF this(1)] assms(1) show False by simp
    qed
    ultimately show "case pieces_loop cr e i j [piece] d w of (ok, d'', w'') \<Rightarrow> \<not> ok \<and> complete d'' = complete d"
      using a dp by (auto simp: Let_def)
  qed
  from 1 2 3 4 show ?thesis by blast
qed

theorem downloadPiece_integrity_witness:
  "merkleRoot demo_crypto (take (read_limit piece_A) (concat (reads attempt_bad)))
     \<noteq> FileMerkleRoot (Contract piece_A)
   \<and> length (take (read_limit piece_A) (concat (reads attempt_bad))) = 2
   \<and> fst (downloadPiece demo_crypto attempt_bad piece_A fresh_session fresh_world)
       = Some InvalidFile
   \<and> \<not> complete (fst (snd (downloadPiece demo_crypto attempt_bad piece_A fresh_session
                              fresh_world)))"
proof -
  have h: "merkleRoot demo_crypto (take (read_limit piece_A) (concat (reads attempt_bad)))
     \<noteq> FileMerkleRoot (Contract piece_A)"
    by (simp add: piece_defs demo_defs)
  have c: "\<not> complete fresh_session" by (simp add: fresh_session_def)
  from downloadPiece_integrity [OF h bad_run] c have "\<not> complete
    (fresh_session\<lparr>received := 2, handle := \<lparr>path = ''out'', offset = 2, closed = False\<rparr>\<rparr>)"
    by blast
  with h show ?thesis by (simp add: bad_run) (simp add: piece_defs demo_defs)
qed

section \<open>Properties of session construction\<close>

text \<open>
  C10. \<open>newDownload\<close> never reads \<open>file.Pieces[0]\<close> out of bounds: the result is never
  the panic. A file without an active piece (its piece list empty, or all of its
  pieces inactive) gets an error, the one of \<open>os.Create\<close> or "no active pieces";
  and where a session is returned, the piece list is not empty and the declared size
  is the one of its first element.
\<close>

theorem newDownload_in_bounds:
  "fst (newDownload e f dest w) \<noteq> Inl IndexOutOfRange
   \<and> (filter Active (Pieces f) = [] \<longrightarrow>
        fst (newDownload e f dest w)
          = Inl (if creatable e dest then NoActivePieces else CreateError))
   \<and> (\<forall>d. fst (newDownload e f dest w) = Inr d \<longrightarrow>
        Pieces f \<noteq> [] \<and> filesize d = FileSize (Contract (hd (Pieces f))))"
  by (auto simp: newDownload_def os_Create_def Let_def split: list.splits if_splits)

theorem newDownload_in_bounds_witness:
  "filter Active (Pieces \<lparr>Name = ''none'', Pieces = []\<rparr>) = []
   \<and> fst (newDownload demo_env \<lparr>Name = ''none'', Pieces = []\<rparr> ''out'' empty_world)
       = Inl NoActivePieces
   \<and> filter Active (Pieces \<lparr>Name = ''idle'', Pieces = [piece_small]\<rparr>) = []
   \<and> fst (newDownload demo_env \<lparr>Name = ''idle'', Pieces = [piece_small]\<rparr> ''out'' empty_world)
       = Inl NoActivePieces
   \<and> fst (newDownload demo_env \<lparr>Name = ''f'', Pieces = [piece_A]\<rparr> ''out'' empty_world)
       = Inr fresh_session
   \<and> filesize fresh_session = FileSize (Contract (hd [piece_A]))"
  using newDownload_in_bounds [of demo_env "\<lparr>Name = ''none'', Pieces = []\<rparr>" "''out''" empty_world]
    newDownload_in_bounds [of demo_env "\<lparr>Name = ''idle'', Pieces = [piece_small]\<rparr>" "''out''" empty_world]
    newDownload_in_bounds [of demo_env "\<lparr>Name = ''f'', Pieces = [piece_A]\<rparr>" "''out''" empty_world]
  by (simp add: new_f_demo) (simp add: demo_env_def piece_small_def demo_defs)

text \<open>
  C8. The claim does not hold for the failure "no active pieces": \<open>newDownload\<close> has
  created the destination file by then and returns without closing or removing it.
  In the empty file system, downloading \<open>idle\<close> (one inactive piece) or \<open>none\<close> (no
  piece) to \<open>out\<close> returns the error and leaves an empty file \<open>out\<close>. The other two
  construction failures, an unknown name and a destination that cannot be created,
  return their error and leave the file system and the log as they were.
\<close>

theorem no_active_pieces_leaves_file:
  "Renter_Download demo_crypto demo_env ''idle'' ''out'' demo_renter empty_world
     = (Some NoActivePieces, demo_renter, \<lparr>disk = [''out'' \<mapsto> []], log = []\<rparr>)
   \<and> disk empty_world ''out'' = None
   \<and> Renter_Download demo_crypto demo_env ''none'' ''out'' demo_renter empty_world
     = (Some NoActivePieces, demo_renter, \<lparr>disk = [''out'' \<mapsto> []], log = []\<rparr>)
   \<and> Renter_Download demo_crypto demo_env ''absent'' ''out'' demo_renter empty_world
     = (Some NoSuchFile, demo_renter, empty_world)
   \<and> Renter_Download demo_crypto demo_env ''f'' [] demo_renter empty_world
     = (Some CreateError, demo_renter, empty_world)"
  by (simp add: run_defs demo_defs)

section \<open>Properties of the download queue\<close>

text \<open>
  C9. \<open>Renter.Download\<close> appends the pointer to each session it has constructed at the
  end of the queue and removes nothing; a call that fails before a session exists
  leaves the queue as it was. \<open>DownloadQueue\<close> returns the queue reversed, newest
  first: with pointers that are pairwise different on entry, they are so afterwards
  (the new one is fresh), and the listing holds each of them once.
\<close>

theorem queue_lists_sessions_newest_first:
  assumes "queue_wf r" and "Renter_Download cr e nick dest r w = (res, r', w')"
  shows "queue_wf r'
     \<and> DownloadQueue r' = rev (downloadQueue r')
     \<and> distinct (DownloadQueue r') \<and> set (DownloadQueue r') = set (downloadQueue r')
     \<and> (case files r nick of
          None \<Rightarrow> downloadQueue r' = downloadQueue r
        | Some f \<Rightarrow>
            (case fst (newDownload e f dest w) of
               Inl err \<Rightarrow> downloadQueue r' = downloadQueue r
             | Inr d \<Rightarrow>
                 downloadQueue r' = downloadQueue r @ [length (heap r)]
                 \<and> DownloadQueue r' = length (heap r) # DownloadQueue r
                 \<and> heap r' = heap r @ [heap r' ! length (heap r)]
                 \<and> same_identity d (heap r' ! length (heap r))))"
proof -
  have rv: "DownloadQueue r' = rev (downloadQueue r')" by (rule DownloadQueue_rev)
  show ?thesis
  proof (cases "files r nick")
    case None
    with Renter_Download_rejected[OF assms(2)] have "r' = r" by simp
    with None assms(1) rv show ?thesis by (simp add: queue_wf_def)
  next
    case (Some f)
    obtain nd w1 where nd: "newDownload e f dest w = (nd, w1)" by (metis prod.exhaust)
    show ?thesis
    proof (cases nd)
      case (Inl err)
      with Renter_Download_rejected[OF assms(2)] Some nd have "r' = r" by blast
      with Some nd Inl assms(1) rv show ?thesis by (simp add: queue_wf_def)
    next
      case (Inr d)
      from Renter_Download_run[OF assms(2) Some nd[unfolded Inr]] obtain ok d2 where
        id: "same_identity d d2"
        and q: "downloadQueue r' = downloadQueue r @ [length (heap r)]"
        and h: "heap r' = heap r @ [d2] \<or> heap r' = heap r @ [d2\<lparr>handle := File_Close (handle d2)\<rparr>]"
        by (metis (full_types))
      from h have len: "length (heap r') = Suc (length (heap r))" by auto
      from h have last: "heap r' = heap r @ [heap r' ! length (heap r)]" by auto
      from h id have sid: "same_identity d (heap r' ! length (heap r))"
        by (auto simp: same_identity_def File_Close_def)
      have fresh: "length (heap r) \<notin> set (downloadQueue r)"
        using assms(1) by (auto simp: queue_wf_def)
      have wf: "queue_wf r'" using assms(1) q len fresh by (auto simp: queue_wf_def)
      have "DownloadQueue r' = length (heap r) # DownloadQueue r"
        by (simp add: DownloadQueue_rev q)
      with wf rv q last sid Some nd Inr show ?thesis by (simp add: queue_wf_def)
    qed
  qed
qed

theorem queue_lists_sessions_newest_first_witness:
  "queue_wf demo_renter
   \<and> Renter_Download demo_crypto demo_env ''f'' ''out'' demo_renter empty_world
       = (None, served_renter, served_world)
   \<and> DownloadQueue served_renter = [0]
   \<and> Renter_Download demo_crypto failing_env ''f'' ''out2'' served_renter served_world
       = (Some CouldNotDownload,
          demo_renter\<lparr>heap := [done_session, second_session], downloadQueue := [0, 1]\<rparr>,
          \<lparr>disk = [''out'' \<mapsto> [4, 7]],
           log = done_log @ take 20 failed_log @ [Close, Remove ''out2'']\<rparr>)
   \<and> downloadQueue
        (demo_renter\<lparr>heap := [done_session, second_session], downloadQueue := [0, 1]\<rparr>)
       = downloadQueue served_renter @ [1]
   \<and> DownloadQueue
        (demo_renter\<lparr>heap := [done_session, second_session], downloadQueue := [0, 1]\<rparr>)
       = [1, 0]
   \<and> map (\<lambda>p. destination
                 (heap (demo_renter\<lparr>heap := [done_session, second_session],
                                    downloadQueue := [0, 1]\<rparr>) ! p))
        (DownloadQueue
           (demo_renter\<lparr>heap := [done_session, second_session], downloadQueue := [0, 1]\<rparr>))
       = [''out2'', ''out'']
   \<and> DownloadQueue (fst (snd (Renter_Download demo_crypto demo_env ''idle'' ''out3''
        (demo_renter\<lparr>heap := [done_session, second_session], downloadQueue := [0, 1]\<rparr>)
        served_world)))
       = [1, 0]"
proof -
  have first: "Renter_Download demo_crypto demo_env ''f'' ''out'' demo_renter empty_world
       = (None, served_renter, served_world)"
    using run_done by (simp add: served_renter_def served_world_def)
  from queue_lists_sessions_newest_first [OF demo_queue_wf first]
  have wf1: "queue_wf served_renter" and l1: "DownloadQueue served_renter = [0]"
    by (simp_all add: served_renter_def demo_renter_def)
  from queue_lists_sessions_newest_first [OF wf1 run_second]
  have wf2: "queue_wf (demo_renter\<lparr>heap := [done_session, second_session],
                                   downloadQueue := [0, 1]\<rparr>)"
    and l2: "DownloadQueue (demo_renter\<lparr>heap := [done_session, second_session],
                                   downloadQueue := [0, 1]\<rparr>) = [1, 0]"
    by simp_all
  from queue_lists_sessions_newest_first [OF wf2 run_third] l2
  have l3: "DownloadQueue (fst (snd (Renter_Download demo_crypto demo_env ''idle'' ''out3''
        (demo_renter\<lparr>heap := [done_session, second_session], downloadQueue := [0, 1]\<rparr>)
        served_world))) = [1, 0]"
    unfolding run_third by simp
  show ?thesis
    using demo_queue_wf first l1 run_second l2 l3
    by (simp add: served_renter_def done_session_def second_session_def)
qed

section \<open>Properties of the retry loop\<close>

text \<open>
  In the theorems of this section a session \<open>d\<close> has been constructed, and \<open>new\<close> are
  the events that the call adds to the log.
\<close>

text \<open>
  C4. If an attempt returns nil, \<open>Renter.Download\<close> returns nil, the session (the last
  one allocated) is complete and its handle closed, and the log of the call ends with
  that attempt and the closing of the file: every attempt before it failed, and no
  attempt, sleep or removal comes after it.
\<close>

theorem first_success_ends_download:
  assumes "files r nick = Some f" and "newDownload e f dest w = (Inr d, w1)"
    and "Renter_Download cr e nick dest r w = (res, r', w')"
    and "log w' = log w @ new" and "\<exists>ev\<in>set new. succeeded ev"
  shows "res = None
     \<and> complete (heap r' ! length (heap r)) \<and> closed (handle (heap r' ! length (heap r)))
     \<and> (\<exists>pre i j. new = pre @ [Finish i j None, Close] \<and> (\<forall>ev\<in>set pre. \<not> succeeded ev))"
proof -
  from Renter_Download_run[OF assms(3,1,2)] obtain ok d2 new0 where
    tr: "run_trace e (pieces d) 0 ok new0"
    and oc: "if ok
          then res = None \<and> log w' = log w @ new0 \<and> heap r' = heap r @ [d2]
               \<and> complete d2 \<and> closed (handle d2)
          else res = Some CouldNotDownload \<and> log w' = log w @ new0 @ [Close, Remove dest]
               \<and> heap r' = heap r @ [d2\<lparr>handle := File_Close (handle d2)\<rparr>]
               \<and> \<not> complete d2 \<and> disk w' dest = None"
    by blast
  note out = run_trace_outcome[OF tr]
  have ok: ok
  proof (rule ccontr)
    assume n: "\<not> ok"
    with oc assms(4) have "new = new0 @ [Close, Remove dest]" by simp
    moreover from out n have "\<forall>ev\<in>set new0. \<not> succeeded ev" by simp
    ultimately show False using assms(5) by auto
  qed
  with oc assms(4) have "new = new0" by simp
  with ok oc out show ?thesis by simp
qed

theorem first_success_ends_download_witness:
  "files demo_renter ''f'' = Some \<lparr>Name = ''f'', Pieces = [piece_A]\<rparr>
   \<and> newDownload demo_env \<lparr>Name = ''f'', Pieces = [piece_A]\<rparr> ''out'' empty_world
       = (Inr fresh_session, fresh_world)
   \<and> Renter_Download demo_crypto demo_env ''f'' ''out'' demo_renter empty_world
       = (None, demo_renter\<lparr>heap := [done_session], downloadQueue := [0]\<rparr>,
          \<lparr>disk = [''out'' \<mapsto> [4, 7]], log = done_log\<rparr>)
   \<and> (\<exists>ev\<in>set done_log. succeeded ev)
   \<and> complete done_session \<and> closed (handle done_session)
   \<and> (\<exists>pre i j. done_log = pre @ [Finish i j None, Close] \<and> (\<forall>ev\<in>set pre. \<not> succeeded ev))"
proof -
  have l: "log \<lparr>disk = [''out'' \<mapsto> [4, 7]], log = done_log\<rparr> = log empty_world @ done_log"
    by (simp add: empty_world_def)
  have s: "\<exists>ev\<in>set done_log. succeeded ev" by (simp add: done_log_def)
  from first_success_ends_download [OF file_f new_f_demo run_done l s]
  show ?thesis using file_f new_f_demo run_done s by (simp add: demo_renter_def)
qed

text \<open>
  C3. If no attempt of the call returns nil, then all pieces have been tried and have
  failed in each of the passes 0 to 4, the call returns the error "could not download
  any file pieces", the handle is closed, and the destination path names no file any
  more; closing and removing are the last two effects.
\<close>

theorem exhaustion_removes_file:
  assumes "files r nick = Some f" and "newDownload e f dest w = (Inr d, w1)"
    and "Renter_Download cr e nick dest r w = (res, r', w')"
    and "log w' = log w @ new" and "\<forall>ev\<in>set new. \<not> succeeded ev"
  shows "res = Some CouldNotDownload \<and> disk w' dest = None
     \<and> closed (handle (heap r' ! length (heap r)))
     \<and> finished new
         = concat (map (\<lambda>p. map (\<lambda>k. (p, k, False)) [0..<length (pieces d)]) [0..<5])
     \<and> (\<exists>pre. new = pre @ [Close, Remove dest])"
proof -
  from Renter_Download_run[OF assms(3,1,2)] obtain ok d2 new0 where
    tr: "run_trace e (pieces d) 0 ok new0"
    and oc: "if ok
          then res = None \<and> log w' = log w @ new0 \<and> heap r' = heap r @ [d2]
               \<and> complete d2 \<and> closed (handle d2)
          else res = Some CouldNotDownload \<and> log w' = log w @ new0 @ [Close, Remove dest]
               \<and> heap r' = heap r @ [d2\<lparr>handle := File_Close (handle d2)\<rparr>]
               \<and> \<not> complete d2 \<and> disk w' dest = None"
    by blast
  note out = run_trace_outcome[OF tr]
  have nok: "\<not> ok"
  proof
    assume ok
    with oc assms(4) have "new = new0" by simp
    moreover from out \<open>ok\<close> obtain pre p k where "new0 = pre @ [Finish p k None, Close]" by auto
    ultimately have "succeeded (Finish p k None) \<and> Finish p k None \<in> set new" by simp
    with assms(5) show False by blast
  qed
  with oc assms(4) have new: "new = new0 @ [Close, Remove dest]" by simp
  have "finished new = finished new0" unfolding new by (simp add: finished_append)
  with run_trace_exhausted[OF tr nok]
  have "finished new = concat (map (\<lambda>p. map (\<lambda>k. (p, k, False)) [0..<length (pieces d)]) [0..<5])"
    by (simp add: downloadAttempts_def)
  with nok oc new show ?thesis by (simp add: File_Close_def)
qed

theorem exhaustion_removes_file_witness:
  "files demo_renter ''f'' = Some \<lparr>Name = ''f'', Pieces = [piece_A]\<rparr>
   \<and> newDownload failing_env \<lparr>Name = ''f'', Pieces = [piece_A]\<rparr> ''out'' empty_world
       = (Inr fresh_session, fresh_world)
   \<and> Renter_Download demo_crypto failing_env ''f'' ''out'' demo_renter empty_world
       = (Some CouldNotDownload, demo_renter\<lparr>heap := [failed_session], downloadQueue := [0]\<rparr>,
          \<lparr>disk = Map.empty, log = failed_log\<rparr>)
   \<and> \<not> (\<exists>ev\<in>set failed_log. succeeded ev)
   \<and> closed (handle failed_session)
   \<and> finished failed_log
       = [(0, 0, False), (1, 0, False), (2, 0, False), (3, 0, False), (4, 0, False)]
   \<and> (\<exists>pre. failed_log = pre @ [Close, Remove ''out''])"
proof -
  have l: "log \<lparr>disk = Map.empty, log = failed_log\<rparr> = log empty_world @ failed_log"
    by (simp add: empty_world_def)
  have s: "\<forall>ev\<in>set failed_log. \<not> succeeded ev" by (simp add: failed_log_def)
  from exhaustion_removes_file [OF file_f new_f_failing run_failed l s]
  show ?thesis using file_f new_f_failing run_failed s
    by (simp add: demo_renter_def) (simp add: failed_log_def)
qed

text \<open>
  C5. Every attempt begins with the counter and the write cursor at zero, and what
  directly follows a failed attempt, before anything else happens, is the reset that
  leaves both at zero: after a failure they are what they were before the attempt.
\<close>

theorem failure_resets_counter_and_cursor:
  assumes "files r nick = Some f" and "newDownload e f dest w = (Inr d, w1)"
    and "Renter_Download cr e nick dest r w = (res, r', w')"
    and "log w' = log w @ new"
  shows "reset_after_failure new
     \<and> (\<forall>i j v off. Begin i j v off \<in> set new \<longrightarrow> v = 0 \<and> off = 0)"
proof -
  from Renter_Download_run[OF assms(3,1,2)] obtain ok new0 where
    tr: "run_trace e (pieces d) 0 ok new0"
    and oc: "if ok then log w' = log w @ new0 else log w' = log w @ new0 @ [Close, Remove dest]"
    by (metis (full_types))
  have r0: "reset_after_failure new0" using run_trace_sound[OF tr] by simp
  have "new = new0 \<or> new = new0 @ [Close, Remove dest]" using oc assms(4) by (auto split: if_splits)
  then have "reset_after_failure new"
    using r0 reset_after_failure_append[OF r0, of "[Close, Remove dest]"] by auto
  then show ?thesis using reset_after_failure_Begin by blast
qed

theorem failure_resets_counter_and_cursor_witness:
  "Renter_Download demo_crypto demo_env ''f'' ''out'' demo_renter empty_world
       = (None, demo_renter\<lparr>heap := [done_session], downloadQueue := [0]\<rparr>,
          \<lparr>disk = [''out'' \<mapsto> [4, 7]], log = done_log\<rparr>)
   \<and> reset_after_failure done_log
   \<and> Begin 1 0 0 0 \<in> set done_log"
proof -
  have l: "log \<lparr>disk = [''out'' \<mapsto> [4, 7]], log = done_log\<rparr> = log empty_world @ done_log"
    by (simp add: empty_world_def)
  from failure_resets_counter_and_cursor [OF file_f new_f_demo run_done l]
  show ?thesis using run_done by (simp add: done_log_def)
qed




section \<open>Properties of the progress counter\<close>




end
